theory Spec2Isabelle
  imports Complex_Main "HOL-Library.AList"
begin

section \<open>Python exceptions\<close>

text \<open>
  The built-in exceptions the modelled code can raise. A method that may raise returns
  a value of type \<open>error + 'a\<close>, \<open>Inl\<close> carrying the exception.
\<close>

datatype error = IndexError | KeyError | TypeError | ZeroDivisionError | ValueError

section \<open>The custom list of \<open>exercise/s2/s_2_custom_list_part_2.py\<close>\<close>

subsection \<open>The backing dict\<close>

text \<open>
  A Python dict keeps its keys in insertion order, and \<open>List.remove\<close> and
  \<open>List.get_index\<close> iterate over \<open>items()\<close> in that order, so the dict is an association
  list. Assigning to a present key keeps its position, assigning to a new key appends it;
  \<open>dict.pop\<close>, \<open>del\<close> and subscripting raise \<open>KeyError\<close> on a missing key.
\<close>

type_synonym 'a dict = "(int \<times> 'a) list"

definition dict_keys :: "'a dict \<Rightarrow> int set" where
  "dict_keys d = fst ` set d"

definition dict_getitem :: "'a dict \<Rightarrow> int \<Rightarrow> error + 'a" where
  "dict_getitem d k = (case map_of d k of None \<Rightarrow> Inl KeyError | Some v \<Rightarrow> Inr v)"

definition dict_setitem :: "'a dict \<Rightarrow> int \<Rightarrow> 'a \<Rightarrow> 'a dict" where
  "dict_setitem d k v = AList.update k v d"

definition dict_pop :: "'a dict \<Rightarrow> int \<Rightarrow> error + ('a \<times> 'a dict)" where
  "dict_pop d k =
     (case map_of d k of None \<Rightarrow> Inl KeyError | Some v \<Rightarrow> Inr (v, AList.delete k d))"

definition dict_delitem :: "'a dict \<Rightarrow> int \<Rightarrow> error + 'a dict" where
  "dict_delitem d k =
     (case map_of d k of None \<Rightarrow> Inl KeyError | Some v \<Rightarrow> Inr (AList.delete k d))"

subsection \<open>The class \<open>List\<close>\<close>

text \<open>
  The object state is the pair of attributes \<open>_elements\<close> and \<open>_count\<close>. A mutating
  method returns the state it leaves behind, also when it raises.
\<close>

record 'a List_obj =
  elements :: "'a dict"
  count :: int

definition List_init :: "'a List_obj" where
  "List_init = \<lparr>elements = [], count = 0\<rparr>"

definition List_append :: "'a List_obj \<Rightarrow> 'a \<Rightarrow> 'a List_obj" where
  "List_append l element =
     \<lparr>elements = dict_setitem (elements l) (count l) element, count = count l + 1\<rparr>"

text \<open>
  The loop \<open>for i in range(index, self._count): self._elements[i] = self._elements.pop(i + 1)\<close>
  shared by \<open>remove\<close> and \<open>pop\<close>. It returns the exception that stopped it, if any,
  and the dict as it is at that moment.
\<close>

function shift_down :: "int \<Rightarrow> int \<Rightarrow> 'a dict \<Rightarrow> error option \<times> 'a dict" where
  "shift_down i n d =
     (if i < n then
        (case dict_pop d (i + 1) of
           Inl e \<Rightarrow> (Some e, d)
         | Inr (v, d') \<Rightarrow> shift_down (i + 1) n (dict_setitem d' i v))
      else (None, d))"
  by pat_completeness auto
termination
  by (relation "measure (\<lambda>(i, n, d). nat (n - i))") auto

declare shift_down.simps [simp del]

text \<open>
  The first key, in iteration order, whose element equals \<open>value\<close>; Python's \<open>==\<close> on
  elements is equality.
\<close>

fun find_item :: "'a \<Rightarrow> 'a dict \<Rightarrow> int option" where
  "find_item val [] = None"
| "find_item val ((index, element) # rest) =
     (if element = val then Some index else find_item val rest)"

definition List_remove :: "'a List_obj \<Rightarrow> 'a \<Rightarrow> error option \<times> 'a List_obj" where
  "List_remove l val =
     (case find_item val (elements l) of
        None \<Rightarrow> (None, l)
      | Some index \<Rightarrow>
          (case dict_delitem (elements l) index of
             Inl e \<Rightarrow> (Some e, l)
           | Inr d \<Rightarrow>
               (let c = count l - 1;
                    (err, d') = shift_down index c d
                in (err, \<lparr>elements = d', count = c\<rparr>))))"

definition List_pop :: "'a List_obj \<Rightarrow> int \<Rightarrow> (error + 'a) \<times> 'a List_obj" where
  "List_pop l index =
     (if index < 0 \<or> index \<ge> count l then (Inl IndexError, l)
      else
        (case dict_pop (elements l) index of
           Inl e \<Rightarrow> (Inl e, l)
         | Inr (element, d) \<Rightarrow>
             (let c = count l - 1;
                  (err, d') = shift_down index c d;
                  l' = \<lparr>elements = d', count = c\<rparr>
              in (case err of Some e \<Rightarrow> (Inl e, l') | None \<Rightarrow> (Inr element, l')))))"

definition List_get_index :: "'a List_obj \<Rightarrow> 'a \<Rightarrow> int" where
  "List_get_index l val = (case find_item val (elements l) of Some index \<Rightarrow> index | None \<Rightarrow> - 1)"

text \<open>
  \<open>__str__\<close> joins \<open>str(self._elements[i])\<close> for \<open>i\<close> in \<open>range(self._count)\<close>; the
  conversion \<open>str\<close> of an element is a parameter.
\<close>

function str_items :: "('a \<Rightarrow> string) \<Rightarrow> 'a dict \<Rightarrow> int \<Rightarrow> int \<Rightarrow> error + string list" where
  "str_items str_of d i n =
     (if i < n then
        (case dict_getitem d i of
           Inl e \<Rightarrow> Inl e
         | Inr v \<Rightarrow>
             (case str_items str_of d (i + 1) n of
                Inl e \<Rightarrow> Inl e
              | Inr ss \<Rightarrow> Inr (str_of v # ss)))
      else Inr [])"
  by pat_completeness auto
termination
  by (relation "measure (\<lambda>(f, d, i, n). nat (n - i))") auto

declare str_items.simps [simp del]

fun join :: "string \<Rightarrow> string list \<Rightarrow> string" where
  "join sep [] = []"
| "join sep [s] = s"
| "join sep (s # t # ss) = s @ sep @ join sep (t # ss)"

definition List_str :: "('a \<Rightarrow> string) \<Rightarrow> 'a List_obj \<Rightarrow> error + string" where
  "List_str str_of l =
     (case str_items str_of (elements l) 0 (count l) of
        Inl e \<Rightarrow> Inl e
      | Inr ss \<Rightarrow> Inr (''['' @ join '', '' ss @ '']''))"

definition List_len :: "'a List_obj \<Rightarrow> int" where
  "List_len l = count l"

definition List_getitem :: "'a List_obj \<Rightarrow> int \<Rightarrow> error + 'a" where
  "List_getitem l index =
     (if index < 0 \<or> index \<ge> count l then Inl IndexError
      else dict_getitem (elements l) index)"

definition List_setitem :: "'a List_obj \<Rightarrow> int \<Rightarrow> 'a \<Rightarrow> (error + unit) \<times> 'a List_obj" where
  "List_setitem l index val =
     (if index < 0 \<or> index \<ge> count l then (Inl IndexError, l)
      else (Inr (), l\<lparr>elements := dict_setitem (elements l) index val\<rparr>))"

text \<open>
  The right operand of \<open>+\<close> may be any Python value; the ones the test uses are another
  \<open>List\<close> and a built-in list. \<open>__add__\<close> has the body \<open>pass\<close>: it returns \<open>None\<close>
  whatever the operand is and touches neither object. \<open>None\<close> is not \<open>NotImplemented\<close>,
  so the expression \<open>l + other\<close> evaluates to it without trying a reflected method.
\<close>

datatype 'a pyval = PyNone | PyInt int | PyBuiltinList "'a list" | PyCustomList "'a List_obj"

definition List_add ::
  "'a List_obj \<Rightarrow> 'a pyval \<Rightarrow> (error + 'a pyval) \<times> 'a List_obj \<times> 'a pyval" where
  "List_add l other = (Inr PyNone, l, other)"

text \<open>
  The invariant of the class: \<open>_count\<close> is the number of stored entries and the keys are
  exactly \<open>0, ..., _count - 1\<close>. Under it the object stands for the sequence \<open>to_list\<close>.
\<close>

definition List_inv :: "'a List_obj \<Rightarrow> bool" where
  "List_inv l \<longleftrightarrow>
     count l = int (length (elements l)) \<and> dict_keys (elements l) = {0 ..< count l}"

definition to_list :: "'a List_obj \<Rightarrow> 'a list" where
  "to_list l = map (\<lambda>k. the (map_of (elements l) (int k))) [0 ..< nat (count l)]"

text \<open>
  The objects a program can have: \<open>List()\<close>, and what \<open>append\<close>, \<open>remove\<close>, \<open>pop\<close> and
  \<open>__setitem__\<close> leave of such an object, whether they raise or not.
\<close>

inductive List_reachable :: "'a List_obj \<Rightarrow> bool" where
  reach_init: "List_reachable List_init"
| reach_append: "List_reachable l \<Longrightarrow> List_reachable (List_append l x)"
| reach_remove: "List_reachable l \<Longrightarrow> List_reachable (snd (List_remove l x))"
| reach_pop: "List_reachable l \<Longrightarrow> List_reachable (snd (List_pop l i))"
| reach_setitem: "List_reachable l \<Longrightarrow> List_reachable (snd (List_setitem l i x))"

text \<open>What deleting position \<open>i\<close> of a sequence leaves.\<close>

definition del_nth :: "nat \<Rightarrow> 'a list \<Rightarrow> 'a list" where
  "del_nth i xs = take i xs @ drop (Suc i) xs"

section \<open>\<open>FinancialAsset.update_last_quote\<close> of \<open>theory/others/s3_extended.py\<close>\<close>

text \<open>
  A quote has a date and a price; the date type is left open. The exception carries the
  rejected quote as its argument. \<open>print\<close> is modelled by the list of lines written;
  \<open>repr\<close> of a quote is a parameter.
\<close>

record 'd Quote =
  date :: 'd
  price :: real

datatype 'd quote_error = NegativePriceException "'d Quote"

record 'd FinancialAsset =
  ticker :: string
  last_quote :: "'d Quote"
  currency :: string
  history :: "'d Quote list"

definition FinancialAsset_init :: "string \<Rightarrow> 'd Quote \<Rightarrow> string \<Rightarrow> 'd FinancialAsset" where
  "FinancialAsset_init tk quote cur =
     \<lparr>ticker = tk, last_quote = quote, currency = cur, history = []\<rparr>"

definition NegativePriceException_str :: "('d Quote \<Rightarrow> string) \<Rightarrow> 'd quote_error \<Rightarrow> string" where
  "NegativePriceException_str repr exc =
     (case exc of NegativePriceException q \<Rightarrow>
        ''Negative Price Exception for ('' @ repr q @ '',)'')"

definition check_quote_for_asset :: "'d Quote \<Rightarrow> 'd quote_error + unit" where
  "check_quote_for_asset new_quote =
     (if price new_quote < 0 then Inl (NegativePriceException new_quote) else Inr ())"

text \<open>
  The result is what the call raises or returns, the object afterwards, and the lines
  printed. The \<open>except\<close> clause handles the only exception the \<open>try\<close> body can raise.
\<close>

definition update_last_quote ::
  "('d Quote \<Rightarrow> string) \<Rightarrow> 'd FinancialAsset \<Rightarrow> 'd Quote
     \<Rightarrow> ('d quote_error + unit) \<times> 'd FinancialAsset \<times> string list" where
  "update_last_quote repr self new_quote =
     (case check_quote_for_asset new_quote of
        Inr _ \<Rightarrow>
          (Inr (),
           self\<lparr>history := history self @ [last_quote self], last_quote := new_quote\<rparr>,
           [])
      | Inl price_exception \<Rightarrow>
          (Inr (), self,
           [NegativePriceException_str repr price_exception, ''Quote has not been updated'']))"

section \<open>\<open>BankAccount\<close> of \<open>theory/s2.py\<close>\<close>

text \<open>
  Amounts are exact numbers of any ordered ring (Python integers, or reals in place of
  floats). The text of a transaction formats the amount with a parameter.
\<close>

record 'a BankAccount =
  owner :: string
  balance :: 'a
  transaction_history :: "string list"

definition BankAccount_init :: "string \<Rightarrow> 'a \<Rightarrow> 'a BankAccount" where
  "BankAccount_init ownr initial_balance =
     \<lparr>owner = ownr, balance = initial_balance, transaction_history = []\<rparr>"

definition add_transaction :: "'a BankAccount \<Rightarrow> string \<Rightarrow> 'a BankAccount" where
  "add_transaction self transaction =
     self\<lparr>transaction_history := transaction_history self @ [transaction]\<rparr>"

definition deposit ::
  "('a::linordered_idom \<Rightarrow> string) \<Rightarrow> 'a BankAccount \<Rightarrow> 'a \<Rightarrow> bool \<times> 'a BankAccount" where
  "deposit fmt self amount =
     (if amount > 0 then
        (True, add_transaction (self\<lparr>balance := balance self + amount\<rparr>)
                 (''Deposit of '' @ fmt amount))
      else (False, self))"

definition withdraw ::
  "('a::linordered_idom \<Rightarrow> string) \<Rightarrow> 'a BankAccount \<Rightarrow> 'a \<Rightarrow> bool \<times> 'a BankAccount" where
  "withdraw fmt self amount =
     (if 0 < amount \<and> amount \<le> balance self then
        (True, add_transaction (self\<lparr>balance := balance self - amount\<rparr>)
                 (''Withdrawal of '' @ fmt amount))
      else (False, self))"

definition get_balance :: "'a BankAccount \<Rightarrow> 'a" where
  "get_balance self = balance self"

definition get_transaction_history :: "'a BankAccount \<Rightarrow> string list" where
  "get_transaction_history self = transaction_history self"

text \<open>A client that calls \<open>deposit\<close> and \<open>withdraw\<close> in any order, ignoring the results.\<close>

datatype 'a account_call = Deposit 'a | Withdraw 'a

fun run_calls ::
  "('a::linordered_idom \<Rightarrow> string) \<Rightarrow> 'a BankAccount \<Rightarrow> 'a account_call list \<Rightarrow> 'a BankAccount" where
  "run_calls fmt self [] = self"
| "run_calls fmt self (Deposit amount # calls) = run_calls fmt (snd (deposit fmt self amount)) calls"
| "run_calls fmt self (Withdraw amount # calls) = run_calls fmt (snd (withdraw fmt self amount)) calls"

section \<open>Black-Scholes options\<close>

text \<open>
  Floats are modelled by exact reals. \<open>math.log\<close> raises \<open>ValueError\<close> on a non-positive
  argument, \<open>math.sqrt\<close> on a negative one, and a division by zero raises
  \<open>ZeroDivisionError\<close>; the checks below follow Python's evaluation order.
\<close>

subsection \<open>The standard normal distribution, \<open>scipy.stats.norm\<close>\<close>

text \<open>
  \<open>norm.pdf\<close> is the standard normal density. \<open>norm.cdf\<close> is its distribution function:
  the antiderivative of the density with value \<open>1/2\<close> at zero. It has no closed form;
  \<open>gauss_int x\<close> is the integral of \<open>exp (- t\<^sup>2 / 2)\<close> from \<open>0\<close> to \<open>x\<close>, given by its
  power series \<open>\<Sum>n. (-1)^n x^(2n+1) / (2^n n! (2n+1))\<close>.
\<close>

definition norm_pdf :: "real \<Rightarrow> real" where
  "norm_pdf x = exp (- (x\<^sup>2) / 2) / sqrt (2 * pi)"

definition gauss_coeff :: "nat \<Rightarrow> real" where
  "gauss_coeff k =
     (if even k then 0 else (- 1 / 2) ^ ((k - 1) div 2) / (fact ((k - 1) div 2) * real k))"

definition gauss_int :: "real \<Rightarrow> real" where
  "gauss_int x = (\<Sum>k. gauss_coeff k * x ^ k)"

definition norm_cdf :: "real \<Rightarrow> real" where
  "norm_cdf x = 1 / 2 + gauss_int x / sqrt (2 * pi)"

subsection \<open>\<open>Option.compute_d1\<close> of \<open>theory/others/s3_extended.py\<close>\<close>

record Option_ext =
  spot :: real
  strike :: real
  risk_free :: real
  ttm :: real
  vol :: real

definition compute_d1 :: "Option_ext \<Rightarrow> error + real" where
  "compute_d1 self =
     (if strike self = 0 then Inl ZeroDivisionError
      else if spot self / strike self \<le> 0 then Inl ValueError
      else if ttm self < 0 then Inl ValueError
      else if vol self * sqrt (ttm self) = 0 then Inl ZeroDivisionError
      else Inr ((ln (spot self / strike self)
                  + (risk_free self + 0.5 * (vol self)\<^sup>2) * ttm self)
                / (vol self * sqrt (ttm self))))"

subsection \<open>\<open>exercise/s1/s_1_bs_option.py\<close>\<close>

record Option_obj =
  S :: real
  K :: real
  r :: real
  T :: real
  sigma :: real

definition d1 :: "Option_obj \<Rightarrow> error + real" where
  "d1 self =
     (if K self = 0 then Inl ZeroDivisionError
      else if S self / K self \<le> 0 then Inl ValueError
      else if sigma self = 0 then Inl ZeroDivisionError
      else if T self < 0 then Inl ValueError
      else Inr ((ln (S self / K self) + (r self + 0.5 * (sigma self)\<^sup>2) * T self)
                / sigma self * sqrt (T self)))"

definition d2 :: "Option_obj \<Rightarrow> error + real" where
  "d2 self =
     (case d1 self of
        Inl e \<Rightarrow> Inl e
      | Inr a \<Rightarrow>
          (if T self < 0 then Inl ValueError else Inr (a - sigma self * sqrt (T self))))"

definition vega :: "Option_obj \<Rightarrow> error + real" where
  "vega self =
     (case d1 self of
        Inl e \<Rightarrow> Inl e
      | Inr a \<Rightarrow>
          (if T self < 0 then Inl ValueError else Inr (S self * norm_pdf a * sqrt (T self))))"


definition Call_delta :: "Option_obj \<Rightarrow> error + real" where
  "Call_delta self = (case d1 self of Inl e \<Rightarrow> Inl e | Inr a \<Rightarrow> Inr (norm_cdf a))"


definition Put_delta :: "Option_obj \<Rightarrow> error + real" where
  "Put_delta self = (case d1 self of Inl e \<Rightarrow> Inl e | Inr a \<Rightarrow> Inr (norm_cdf a - 1.0))"

text \<open>The Black-Scholes formula that the specification gives for \<open>d1\<close>.\<close>

definition d1_formula :: "real \<Rightarrow> real \<Rightarrow> real \<Rightarrow> real \<Rightarrow> real \<Rightarrow> real" where
  "d1_formula s0 k0 r0 t0 sg =
     (ln (s0 / k0) + (r0 + 0.5 * sg\<^sup>2) * t0) / (sg * sqrt t0)"

subsection \<open>Auxiliary functions\<close>

text \<open>
  \<open>cos_int m t\<close> is the integral of \<open>cos ^ m\<close> from \<open>0\<close> to \<open>t\<close>, by the reduction formula,
  and \<open>wallis m\<close> its value at \<open>pi / 2\<close>. They serve to bound \<open>gauss_int\<close>.
\<close>

fun cos_int :: "nat \<Rightarrow> real \<Rightarrow> real" where
  "cos_int 0 t = t"
| "cos_int (Suc 0) t = sin t"
| "cos_int (Suc (Suc m)) t =
     (cos t ^ Suc m * sin t + real (Suc m) * cos_int m t) / real (Suc (Suc m))"

definition wallis :: "nat \<Rightarrow> real" where
  "wallis m = cos_int m (pi / 2)"

section \<open>Properties of the custom list\<close>

subsection \<open>The backing dict\<close>

lemma dict_keys_map_of: "k \<in> dict_keys d \<longleftrightarrow> map_of d k \<noteq> None"
  by (simp add: dict_keys_def map_of_eq_None_iff)

lemma dict_keys_setitem: "dict_keys (dict_setitem d k v) = insert k (dict_keys d)"
  using dom_update [of k v d] by (simp add: dict_keys_def dict_setitem_def dom_map_of_conv_image_fst)

lemma dict_keys_delete: "dict_keys (AList.delete k d) = dict_keys d - {k}"
  using delete_keys [of k d, THEN arg_cong, of set] by (simp add: dict_keys_def)

lemma map_of_setitem: "map_of (dict_setitem d k v) = (map_of d)(k \<mapsto> v)"
  by (simp add: dict_setitem_def update_conv')

lemma distinct_setitem: "distinct (map fst d) \<Longrightarrow> distinct (map fst (dict_setitem d k v))"
  by (simp add: dict_setitem_def distinct_update)

lemma List_inv_distinct:
  assumes "List_inv l"
  shows "distinct (map fst (elements l))"
proof -
  have "card (set (map fst (elements l))) = card {0 ..< count l}"
    using assms by (simp add: List_inv_def dict_keys_def)
  also have "\<dots> = length (map fst (elements l))"
    using assms by (simp add: List_inv_def)
  finally show ?thesis by (rule card_distinct)
qed

lemma List_invI:
  assumes "distinct (map fst d)" and "dict_keys d = {0 ..< c}" and "0 \<le> c"
  shows "List_inv \<lparr>elements = d, count = c\<rparr>"
proof -
  have "card (set (map fst d)) = length (map fst d)"
    using assms(1) by (rule distinct_card)
  moreover have "card (set (map fst d)) = nat c"
    using assms(2) by (simp add: dict_keys_def)
  ultimately show ?thesis
    using assms by (simp add: List_inv_def)
qed

subsection \<open>The shifting loop\<close>

text \<open>
  Started on a dict whose keys are \<open>0, ..., n\<close> without \<open>i\<close>, the loop raises nothing,
  leaves the keys \<open>0, ..., n - 1\<close> and moves every entry above \<open>i\<close> one key down.
\<close>

lemma shift_down_spec:
  assumes "distinct (map fst d)" and "dict_keys d = {0 .. n} - {i}" and "0 \<le> i" and "i \<le> n"
  shows "\<exists>d'. shift_down i n d = (None, d') \<and> distinct (map fst d') \<and> dict_keys d' = {0 ..< n}
           \<and> (\<forall>j. map_of d' j = (if j < i then map_of d j else map_of d (j + 1)))"
  using assms
proof (induction i n d rule: shift_down.induct)
  case (1 i n d)
  show ?case
  proof (cases "i < n")
    case False
    with "1.prems" have "i = n" by simp
    have keys: "dict_keys d = {0 ..< n}"
      unfolding "1.prems"(2) \<open>i = n\<close> by (rule atLeastLessThan_eq_atLeastAtMost_diff [symmetric])
    have m: "map_of d j = (if j < i then map_of d j else map_of d (j + 1))" for j
    proof (cases "j < i")
      case True then show ?thesis by simp
    next
      case False
      then have "j \<notin> dict_keys d" "j + 1 \<notin> dict_keys d"
        unfolding keys \<open>i = n\<close> by simp_all
      then have "map_of d j = None" "map_of d (j + 1) = None"
        by (simp_all add: dict_keys_map_of)
      then show ?thesis by simp
    qed
    have "shift_down i n d = (None, d)"
      using False by (subst shift_down.simps) simp
    then show ?thesis
      using "1.prems"(1) keys m by blast
  next
    case True
    have "i + 1 \<in> dict_keys d"
      using True "1.prems"(2,3) by simp
    then obtain v where v: "map_of d (i + 1) = Some v"
      by (auto simp: dict_keys_map_of)
    define d1 where "d1 = AList.delete (i + 1) d"
    define d2 where "d2 = dict_setitem d1 i v"
    have pop: "dict_pop d (i + 1) = Inr (v, d1)"
      by (simp add: dict_pop_def v d1_def)
    have dist2: "distinct (map fst d2)"
      using "1.prems"(1) by (simp add: d2_def d1_def distinct_setitem distinct_delete)
    have "dict_keys d2 = insert i ({0 .. n} - {i} - {i + 1})"
      by (simp add: d2_def d1_def dict_keys_setitem dict_keys_delete "1.prems"(2))
    also have "\<dots> = {0 .. n} - {i + 1}"
      using "1.prems"(3,4) by auto
    finally have keys2: "dict_keys d2 = {0 .. n} - {i + 1}" .
    have m2: "map_of d2 = ((map_of d)(i + 1 := None))(i \<mapsto> v)"
      by (simp add: d2_def d1_def map_of_setitem delete_conv')
    have "\<exists>d'. shift_down (i + 1) n d2 = (None, d') \<and> distinct (map fst d')
            \<and> dict_keys d' = {0 ..< n}
            \<and> (\<forall>j. map_of d' j = (if j < i + 1 then map_of d2 j else map_of d2 (j + 1)))"
      unfolding d2_def
    proof (rule "1.IH" [OF True pop refl])
      show "distinct (map fst (dict_setitem d1 i v))" using dist2 by (simp add: d2_def)
      show "dict_keys (dict_setitem d1 i v) = {0 .. n} - {i + 1}" using keys2 by (simp add: d2_def)
      show "0 \<le> i + 1" using "1.prems"(3) by simp
      show "i + 1 \<le> n" using True by simp
    qed
    then obtain d' where d': "shift_down (i + 1) n d2 = (None, d')" "distinct (map fst d')"
      "dict_keys d' = {0 ..< n}"
      and md': "\<And>j. map_of d' j = (if j < i + 1 then map_of d2 j else map_of d2 (j + 1))"
      by blast
    have step: "shift_down i n d = (None, d')"
      using True pop d'(1) by (subst shift_down.simps) (simp add: d2_def)
    have "map_of d' j = (if j < i then map_of d j else map_of d (j + 1))" for j
    proof -
      consider "j < i" | "j = i" | "i < j" by linarith
      then show ?thesis
      proof cases
        case 1 then show ?thesis by (simp add: md' m2)
      next
        case 2 then show ?thesis by (simp add: md' m2 v)
      next
        case 3 then show ?thesis by (simp add: md' m2)
      qed
    qed
    with step d'(2,3) show ?thesis by blast
  qed
qed

subsection \<open>The invariant and the sequence an object stands for\<close>

lemma List_inv_count_nonneg: "List_inv l \<Longrightarrow> 0 \<le> count l"
  by (simp add: List_inv_def)

lemma List_inv_keys: "List_inv l \<Longrightarrow> dict_keys (elements l) = {0 ..< count l}"
  by (simp add: List_inv_def)

lemma List_inv_lookup:
  assumes "List_inv l" and "0 \<le> i" and "i < count l"
  shows "\<exists>v. map_of (elements l) i = Some v"
proof -
  have "i \<in> dict_keys (elements l)"
    using assms by (simp add: List_inv_keys)
  then show ?thesis by (simp add: dict_keys_map_of)
qed

lemma length_to_list: "length (to_list l) = nat (count l)"
  by (simp add: to_list_def)

lemma nth_to_list: "k < nat (count l) \<Longrightarrow> to_list l ! k = the (map_of (elements l) (int k))"
  by (simp add: to_list_def)

lemma List_inv_init: "List_inv List_init"
  by (simp add: List_inv_def List_init_def dict_keys_def)

lemma List_inv_append:
  assumes "List_inv l"
  shows "List_inv (List_append l x)"
  unfolding List_append_def
proof (rule List_invI)
  show "distinct (map fst (dict_setitem (elements l) (count l) x))"
    using assms by (simp add: distinct_setitem List_inv_distinct)
  show "dict_keys (dict_setitem (elements l) (count l) x) = {0 ..< count l + 1}"
    using List_inv_count_nonneg [OF assms]
    by (auto simp: dict_keys_setitem List_inv_keys [OF assms])
  show "0 \<le> count l + 1"
    using List_inv_count_nonneg [OF assms] by simp
qed

lemma to_list_append:
  assumes "List_inv l"
  shows "to_list (List_append l x) = to_list l @ [x]"
proof (rule nth_equalityI)
  have c: "0 \<le> count l" by (rule List_inv_count_nonneg [OF assms])
  have cnt: "nat (count (List_append l x)) = Suc (nat (count l))"
    using c by (simp add: List_append_def nat_add_distrib)
  show len: "length (to_list (List_append l x)) = length (to_list l @ [x])"
    by (simp add: length_to_list cnt)
  fix k assume "k < length (to_list (List_append l x))"
  then have k: "k < Suc (nat (count l))" by (simp add: length_to_list cnt)
  have "to_list (List_append l x) ! k = the (map_of (elements (List_append l x)) (int k))"
    using k by (intro nth_to_list) (simp add: cnt)
  also have "\<dots> = the (((map_of (elements l))(count l \<mapsto> x)) (int k))"
    by (simp add: List_append_def map_of_setitem)
  also have "\<dots> = (to_list l @ [x]) ! k"
  proof (cases "k < nat (count l)")
    case True
    then have "int k \<noteq> count l" by linarith
    then show ?thesis using True by (simp add: nth_append length_to_list nth_to_list)
  next
    case False
    with k have "int k = count l" using c by linarith
    then show ?thesis using False by (simp add: nth_append length_to_list)
  qed
  finally show "to_list (List_append l x) ! k = (to_list l @ [x]) ! k" .
qed

lemma List_setitem_in_range:
  assumes "List_inv l" and "0 \<le> i" and "i < count l"
  shows "fst (List_setitem l i v) = Inr ()"
    and "List_inv (snd (List_setitem l i v))"
    and "to_list (snd (List_setitem l i v)) = (to_list l)[nat i := v]"
    and "count (snd (List_setitem l i v)) = count l"
proof -
  let ?l' = "l\<lparr>elements := dict_setitem (elements l) i v\<rparr>"
  have res: "List_setitem l i v = (Inr (), ?l')"
    using assms(2,3) by (simp add: List_setitem_def)
  show "fst (List_setitem l i v) = Inr ()" by (simp add: res)
  show "count (snd (List_setitem l i v)) = count l" by (simp add: res)
  have "dict_keys (dict_setitem (elements l) i v) = {0 ..< count l}"
    using assms(2,3) by (auto simp: dict_keys_setitem List_inv_keys [OF assms(1)])
  moreover have "distinct (map fst (dict_setitem (elements l) i v))"
    using assms(1) by (simp add: distinct_setitem List_inv_distinct)
  ultimately have "List_inv \<lparr>elements = dict_setitem (elements l) i v, count = count l\<rparr>"
    using List_inv_count_nonneg [OF assms(1)] by (intro List_invI)
  then show "List_inv (snd (List_setitem l i v))"
    by (simp add: res List_inv_def)
  show "to_list (snd (List_setitem l i v)) = (to_list l)[nat i := v]"
  proof (rule nth_equalityI)
    show "length (to_list (snd (List_setitem l i v))) = length ((to_list l)[nat i := v])"
      by (simp add: res length_to_list)
    fix k assume "k < length (to_list (snd (List_setitem l i v)))"
    then have k: "k < nat (count l)" by (simp add: res length_to_list)
    show "to_list (snd (List_setitem l i v)) ! k = (to_list l)[nat i := v] ! k"
    proof (cases "k = nat i")
      case True
      then have "int k = i" using assms(2) by simp
      then show ?thesis
        using k True by (simp add: res to_list_def map_of_setitem)
    next
      case False
      then have "int k \<noteq> i" using assms(2) by auto
      then show ?thesis
        using k False by (simp add: res to_list_def map_of_setitem)
    qed
  qed
qed

lemma List_getitem_in_range:
  assumes "List_inv l" and "0 \<le> i" and "i < count l"
  shows "List_getitem l i = Inr (to_list l ! nat i)"
proof -
  obtain v where v: "map_of (elements l) i = Some v"
    using List_inv_lookup [OF assms] by blast
  have "to_list l ! nat i = v"
    using assms(2,3) v by (simp add: nth_to_list)
  then show ?thesis
    using assms(2,3) v by (simp add: List_getitem_def dict_getitem_def)
qed

text \<open>Removing the entry at key \<open>i\<close> and running the loop closes the gap.\<close>

lemma close_gap:
  assumes inv: "List_inv l" and i0: "0 \<le> i" and ic: "i < count l"
  shows "\<exists>d'. shift_down i (count l - 1) (AList.delete i (elements l)) = (None, d')
           \<and> List_inv \<lparr>elements = d', count = count l - 1\<rparr>
           \<and> to_list \<lparr>elements = d', count = count l - 1\<rparr> = del_nth (nat i) (to_list l)"
proof -
  let ?d = "elements l" and ?c = "count l"
  let ?del = "AList.delete i ?d"
  have dist0: "distinct (map fst ?del)"
    using inv by (simp add: distinct_delete List_inv_distinct)
  have "{0 ..< ?c} = {0 .. ?c - 1}" by auto
  then have keys0: "dict_keys ?del = {0 .. ?c - 1} - {i}"
    by (simp add: dict_keys_delete List_inv_keys [OF inv])
  from shift_down_spec [OF dist0 keys0 i0] ic
  obtain d' where d': "shift_down i (?c - 1) ?del = (None, d')" "distinct (map fst d')"
      "dict_keys d' = {0 ..< ?c - 1}"
    and md': "\<And>j. map_of d' j = (if j < i then map_of ?del j else map_of ?del (j + 1))"
    by auto
  let ?l' = "\<lparr>elements = d', count = ?c - 1\<rparr>"
  have inv': "List_inv ?l'"
    using d'(2,3) i0 ic by (intro List_invI) simp_all
  have m: "map_of d' j = (if j < i then map_of ?d j else map_of ?d (j + 1))" for j
    by (simp add: md' delete_conv')
  have "to_list ?l' = del_nth (nat i) (to_list l)"
  proof (rule nth_equalityI)
    show len: "length (to_list ?l') = length (del_nth (nat i) (to_list l))"
      using i0 ic by (simp add: length_to_list del_nth_def)
    fix k assume "k < length (to_list ?l')"
    then have k: "k < nat (?c - 1)" by (simp add: length_to_list)
    have lhs: "to_list ?l' ! k = the (map_of d' (int k))"
      using k by (simp add: nth_to_list)
    show "to_list ?l' ! k = del_nth (nat i) (to_list l) ! k"
    proof (cases "k < nat i")
      case True
      then have "int k < i" by linarith
      moreover have "k < nat ?c" using k by linarith
      ultimately show ?thesis
        using True by (simp add: lhs m del_nth_def nth_append length_to_list nth_to_list)
    next
      case False
      then have ge: "\<not> int k < i" by linarith
      have k1: "Suc k < nat ?c" using k by linarith
      have "del_nth (nat i) (to_list l) ! k = to_list l ! (Suc (nat i) + (k - nat i))"
        using False ic i0 by (simp add: del_nth_def nth_append length_to_list min_def)
      also have "Suc (nat i) + (k - nat i) = Suc k" using False by simp
      also have "to_list l ! Suc k = the (map_of ?d (int (Suc k)))"
        using k1 by (rule nth_to_list)
      finally show ?thesis
        using ge by (simp add: lhs m add.commute)
    qed
  qed
  with d'(1) inv' show ?thesis by blast
qed

lemma List_pop_in_range:
  assumes "List_inv l" and "0 \<le> i" and "i < count l"
  shows "fst (List_pop l i) = Inr (to_list l ! nat i)"
    and "List_inv (snd (List_pop l i))"
    and "to_list (snd (List_pop l i)) = del_nth (nat i) (to_list l)"
    and "count (snd (List_pop l i)) = count l - 1"
proof -
  obtain v where v: "map_of (elements l) i = Some v"
    using List_inv_lookup [OF assms] by blast
  have xv: "to_list l ! nat i = v"
    using assms(2,3) v by (simp add: nth_to_list)
  obtain d' where d': "shift_down i (count l - 1) (AList.delete i (elements l)) = (None, d')"
    "List_inv \<lparr>elements = d', count = count l - 1\<rparr>"
    "to_list \<lparr>elements = d', count = count l - 1\<rparr> = del_nth (nat i) (to_list l)"
    using close_gap [OF assms] by blast
  have res: "List_pop l i = (Inr v, \<lparr>elements = d', count = count l - 1\<rparr>)"
    using assms(2,3) by (simp add: List_pop_def dict_pop_def v d'(1))
  show "fst (List_pop l i) = Inr (to_list l ! nat i)" by (simp add: res xv)
  show "List_inv (snd (List_pop l i))" by (simp add: res d'(2))
  show "to_list (snd (List_pop l i)) = del_nth (nat i) (to_list l)" by (simp add: res d'(3))
  show "count (snd (List_pop l i)) = count l - 1" by (simp add: res)
qed

lemma find_item_key:
  "find_item x d = Some i \<Longrightarrow> i \<in> dict_keys d"
  by (induction x d rule: find_item.induct) (auto simp: dict_keys_def split: if_splits)

lemma List_remove_inv:
  assumes "List_inv l"
  shows "fst (List_remove l x) = None" and "List_inv (snd (List_remove l x))"
proof -
  have "fst (List_remove l x) = None \<and> List_inv (snd (List_remove l x))"
  proof (cases "find_item x (elements l)")
    case None
    then show ?thesis using assms by (simp add: List_remove_def)
  next
    case (Some i)
    then have "i \<in> dict_keys (elements l)" by (rule find_item_key)
    then have i: "0 \<le> i" "i < count l"
      by (simp_all add: List_inv_keys [OF assms])
    obtain v where v: "map_of (elements l) i = Some v"
      using List_inv_lookup [OF assms i] by blast
    obtain d' where d': "shift_down i (count l - 1) (AList.delete i (elements l)) = (None, d')"
      "List_inv \<lparr>elements = d', count = count l - 1\<rparr>"
      using close_gap [OF assms i] by blast
    have "List_remove l x = (None, \<lparr>elements = d', count = count l - 1\<rparr>)"
      by (simp add: List_remove_def Some dict_delitem_def v d'(1))
    then show ?thesis by (simp add: d'(2))
  qed
  then show "fst (List_remove l x) = None" and "List_inv (snd (List_remove l x))"
    by simp_all
qed

lemma str_items_present:
  assumes "\<And>k. i \<le> k \<Longrightarrow> k < n \<Longrightarrow> k \<in> dict_keys d"
  shows "\<exists>ss. str_items f d i n = Inr ss"
  using assms
proof (induction f d i n rule: str_items.induct)
  case (1 f d i n)
  show ?case
  proof (cases "i < n")
    case False
    then show ?thesis by (subst str_items.simps) simp
  next
    case True
    then have "i \<in> dict_keys d" using "1.prems" by simp
    then obtain v where v: "map_of d i = Some v" by (auto simp: dict_keys_map_of)
    have g: "dict_getitem d i = Inr v" by (simp add: dict_getitem_def v)
    have "\<exists>ss. str_items f d (i + 1) n = Inr ss"
      using "1.prems" by (intro "1.IH" [OF True g]) simp_all
    then obtain ss where "str_items f d (i + 1) n = Inr ss" by blast
    then show ?thesis using True g by (subst str_items.simps) simp
  qed
qed

lemma List_str_ok:
  assumes "List_inv l"
  shows "\<exists>s. List_str f l = Inr s"
proof -
  have "\<exists>ss. str_items f (elements l) 0 (count l) = Inr ss"
    by (rule str_items_present) (simp add: List_inv_keys [OF assms])
  then show ?thesis by (auto simp: List_str_def)
qed

lemma List_pop_inv:
  assumes "List_inv l"
  shows "List_inv (snd (List_pop l i))"
proof (cases "0 \<le> i \<and> i < count l")
  case True
  then show ?thesis using List_pop_in_range(2) [OF assms] by simp
next
  case False
  then show ?thesis using assms by (auto simp: List_pop_def)
qed

lemma List_pop_no_KeyError:
  assumes "List_inv l"
  shows "fst (List_pop l i) \<noteq> Inl KeyError"
proof (cases "0 \<le> i \<and> i < count l")
  case True
  then show ?thesis using List_pop_in_range(1) [OF assms] by simp
next
  case False
  then show ?thesis by (auto simp: List_pop_def)
qed

lemma List_setitem_inv:
  assumes "List_inv l"
  shows "List_inv (snd (List_setitem l i x))"
proof (cases "0 \<le> i \<and> i < count l")
  case True
  then show ?thesis using List_setitem_in_range(2) [OF assms] by simp
next
  case False
  then show ?thesis using assms by (auto simp: List_setitem_def)
qed

text \<open>Every object a program can have satisfies the invariant.\<close>

lemma List_reachable_inv: "List_reachable l \<Longrightarrow> List_inv l"
proof (induction rule: List_reachable.induct)
  case reach_init
  show ?case by (rule List_inv_init)
next
  case (reach_append l x)
  then show ?case by (intro List_inv_append)
next
  case (reach_remove l x)
  then show ?case by (intro List_remove_inv(2))
next
  case (reach_pop l i)
  then show ?case by (intro List_pop_inv)
next
  case (reach_setitem l i x)
  then show ?case by (intro List_setitem_inv)
qed

lemma to_list_init: "to_list List_init = []"
  by (simp add: to_list_def List_init_def)

text \<open>
  C9: \<open>_count\<close> is the number of stored elements and the keys of \<open>_elements\<close> are exactly
  \<open>0, ..., _count - 1\<close>. This holds after construction and is kept by \<open>append\<close>,
  \<open>remove\<close>, \<open>pop\<close> and \<open>__setitem__\<close>, none of which then meets a missing key; under it
  \<open>__str__\<close> returns a string and \<open>__getitem__\<close> at an index in range returns an
  element.
\<close>

theorem List_invariant:
  "List_inv (List_init :: 'a List_obj) \<and>
   (List_inv l \<longrightarrow>
      List_inv (List_append l x) \<and>
      fst (List_remove l x) = None \<and> List_inv (snd (List_remove l x)) \<and>
      fst (List_pop l i) \<noteq> Inl KeyError \<and> List_inv (snd (List_pop l i)) \<and>
      List_inv (snd (List_setitem l i x)) \<and>
      (\<exists>s. List_str f l = Inr s) \<and>
      (0 \<le> i \<and> i < count l \<longrightarrow> (\<exists>v. List_getitem l i = Inr v)))"
proof (intro conjI impI)
  show "List_inv (List_init :: 'a List_obj)" by (rule List_inv_init)
next
  assume inv: "List_inv l"
  show "List_inv (List_append l x)" by (rule List_inv_append [OF inv])
  show "fst (List_remove l x) = None" by (rule List_remove_inv(1) [OF inv])
  show "List_inv (snd (List_remove l x))" by (rule List_remove_inv(2) [OF inv])
  show "\<exists>s. List_str f l = Inr s" by (rule List_str_ok [OF inv])
  show "fst (List_pop l i) \<noteq> Inl KeyError" by (rule List_pop_no_KeyError [OF inv])
  show "List_inv (snd (List_pop l i))" by (rule List_pop_inv [OF inv])
  show "List_inv (snd (List_setitem l i x))" by (rule List_setitem_inv [OF inv])
next
  assume inv: "List_inv l" and "0 \<le> i \<and> i < count l"
  then show "\<exists>v. List_getitem l i = Inr v"
    using List_getitem_in_range [OF inv] by simp
qed

theorem List_invariant_witness:
  "List_inv \<lparr>elements = [(0, 10), (1, 20), (2, 30 :: int)], count = 3\<rparr> \<and>
   List_inv (List_append \<lparr>elements = [(0, 10), (1, 20), (2, 30 :: int)], count = 3\<rparr> 20) \<and>
   List_inv (snd (List_remove \<lparr>elements = [(0, 10), (1, 20), (2, 30 :: int)], count = 3\<rparr> 20)) \<and>
   List_inv (snd (List_pop \<lparr>elements = [(0, 10), (1, 20), (2, 30 :: int)], count = 3\<rparr> 1)) \<and>
   List_inv (snd (List_setitem \<lparr>elements = [(0, 10), (1, 20), (2, 30 :: int)], count = 3\<rparr> 1 20)) \<and>
   (\<exists>v. List_getitem \<lparr>elements = [(0, 10), (1, 20), (2, 30 :: int)], count = 3\<rparr> 1 = Inr v)"
proof -
  let ?l = "\<lparr>elements = [(0, 10), (1, 20), (2, 30 :: int)], count = 3\<rparr>"
  have h: "List_inv ?l"
    unfolding List_inv_def dict_keys_def by auto
  have r: "0 \<le> (1 :: int) \<and> 1 < count ?l" by simp
  from List_invariant [where l = ?l and x = 20 and i = 1 and f = "\<lambda>n. ''n''"] h r
  show ?thesis by blast
qed

text \<open>
  C6: on every list a program can have, \<open>__getitem__\<close>, \<open>__setitem__\<close> and \<open>pop\<close> raise
  \<open>IndexError\<close> exactly when the index is negative or at least the length, and then
  leave the list as it is; otherwise they return the element at that position, replace
  it, or remove and return it. The length is the number of elements of the sequence.
\<close>

theorem List_index_access:
  assumes "List_reachable l"
  shows "List_len l = int (length (to_list l)) \<and>
    (i < 0 \<or> i \<ge> List_len l \<longrightarrow>
       List_getitem l i = Inl IndexError \<and>
       List_setitem l i v = (Inl IndexError, l) \<and>
       List_pop l i = (Inl IndexError, l)) \<and>
    (\<not> (i < 0 \<or> i \<ge> List_len l) \<longrightarrow>
       List_getitem l i = Inr (to_list l ! nat i) \<and>
       fst (List_setitem l i v) = Inr () \<and>
       to_list (snd (List_setitem l i v)) = (to_list l)[nat i := v] \<and>
       fst (List_pop l i) = Inr (to_list l ! nat i) \<and>
       to_list (snd (List_pop l i)) = del_nth (nat i) (to_list l))"
proof (intro conjI impI)
  note inv = List_reachable_inv [OF assms]
  show "List_len l = int (length (to_list l))"
    using List_inv_count_nonneg [OF inv] by (simp add: List_len_def length_to_list)
next
  assume out: "i < 0 \<or> i \<ge> List_len l"
  then show "List_getitem l i = Inl IndexError"
    by (auto simp: List_getitem_def List_len_def)
  from out show "List_setitem l i v = (Inl IndexError, l)"
    by (auto simp: List_setitem_def List_len_def)
  from out show "List_pop l i = (Inl IndexError, l)"
    by (auto simp: List_pop_def List_len_def)
next
  note inv = List_reachable_inv [OF assms]
  assume "\<not> (i < 0 \<or> i \<ge> List_len l)"
  then have i: "0 \<le> i" "i < count l" by (simp_all add: List_len_def)
  show "List_getitem l i = Inr (to_list l ! nat i)"
    by (rule List_getitem_in_range [OF inv i])
  show "fst (List_setitem l i v) = Inr ()"
    by (rule List_setitem_in_range(1) [OF inv i])
  show "to_list (snd (List_setitem l i v)) = (to_list l)[nat i := v]"
    by (rule List_setitem_in_range(3) [OF inv i])
  show "fst (List_pop l i) = Inr (to_list l ! nat i)"
    by (rule List_pop_in_range(1) [OF inv i])
  show "to_list (snd (List_pop l i)) = del_nth (nat i) (to_list l)"
    by (rule List_pop_in_range(3) [OF inv i])
qed

text \<open>The list of \<open>TestListDunder.setUp\<close>, with the accesses of the tests.\<close>

theorem List_index_access_witness:
  "List_reachable (List_append (List_append (List_append List_init 1) 2) (3 :: int)) \<and>
   List_len (List_append (List_append (List_append List_init 1) 2) (3 :: int)) = 3 \<and>
   List_getitem (List_append (List_append (List_append List_init 1) 2) (3 :: int)) 1 = Inr 2 \<and>
   List_getitem (List_append (List_append (List_append List_init 1) 2) (3 :: int)) 3
     = Inl IndexError \<and>
   List_getitem (List_append (List_append (List_append List_init 1) 2) (3 :: int)) (- 1)
     = Inl IndexError \<and>
   List_setitem (List_append (List_append (List_append List_init 1) 2) (3 :: int)) 3 4
     = (Inl IndexError, List_append (List_append (List_append List_init 1) 2) 3) \<and>
   to_list (snd (List_setitem (List_append (List_append (List_append List_init 1) 2) (3 :: int)) 1 5))
     = [1, 5, 3] \<and>
   fst (List_pop (List_append (List_append (List_append List_init 1) 2) (3 :: int)) 0) = Inr 1 \<and>
   to_list (snd (List_pop (List_append (List_append (List_append List_init 1) 2) (3 :: int)) 0))
     = [2, 3]"
proof -
  let ?l = "List_append (List_append (List_append List_init 1) 2) (3 :: int)"
  have h: "List_reachable ?l"
    by (intro reach_append reach_init)
  have l: "?l = \<lparr>elements = [(0, 1), (1, 2), (2, 3)], count = 3\<rparr>"
    by (simp add: List_append_def List_init_def dict_setitem_def)
  have tl: "to_list ?l = [1, 2, 3]"
    by (simp add: l to_list_def upt_rec)
  have len: "List_len ?l = 3"
    using List_index_access [OF h, of 0 0] by (simp add: tl)
  have a: "List_getitem ?l 1 = Inr 2 \<and> to_list (snd (List_setitem ?l 1 5)) = [1, 5, 3]"
    using List_index_access [OF h, of 1 5] by (simp add: len tl)
  have b: "List_getitem ?l 3 = Inl IndexError \<and> List_setitem ?l 3 4 = (Inl IndexError, ?l)"
    using List_index_access [OF h, of 3 4] by (simp add: len)
  have c: "List_getitem ?l (- 1) = Inl IndexError"
    using List_index_access [OF h, of "- 1" 0] by (simp add: len)
  have d: "fst (List_pop ?l 0) = Inr 1 \<and> to_list (snd (List_pop ?l 0)) = [2, 3]"
    using List_index_access [OF h, of 0 0] by (simp add: len tl del_nth_def)
  from h len a b c d show ?thesis by blast
qed

text \<open>
  C3: adding an operand of an unsupported type to a \<open>List\<close> should raise \<open>TypeError\<close>,
  as \<open>test_add\<close> expects for \<open>self.list + [2, 3, 4]\<close>. The method returns \<open>None\<close>
  instead: on the list of the test's \<open>setUp\<close> and the built-in list \<open>[2, 3, 4]\<close>
  nothing is raised.
\<close>

theorem List_add_builtin_list_no_TypeError:
  "fst (List_add (List_append (List_append (List_append List_init 1) 2) (3 :: int))
          (PyBuiltinList [2, 3, 4])) = Inr PyNone \<and>
   fst (List_add (List_append (List_append (List_append List_init 1) 2) (3 :: int))
          (PyBuiltinList [2, 3, 4])) \<noteq> Inl TypeError"
  by (simp add: List_add_def)

text \<open>
  C4: \<open>__add__\<close> is unimplemented. For any two \<open>List\<close> objects \<open>a\<close> and \<open>b\<close>, \<open>a + b\<close>
  returns \<open>None\<close>, not a new \<open>List\<close>, and leaves \<open>a\<close> and \<open>b\<close> as they are.
\<close>

theorem List_add_returns_None:
  "List_add a (PyCustomList b) = (Inr PyNone, a, PyCustomList b) \<and>
   (\<forall>c. fst (List_add a (PyCustomList b)) \<noteq> Inr (PyCustomList c))"
  by (simp add: List_add_def)

section \<open>Properties of \<open>FinancialAsset.update_last_quote\<close>\<close>

text \<open>
  C5: \<open>update_last_quote\<close> never lets the exception out. With a negative price the
  check raises \<open>NegativePriceException\<close>, which is caught and printed, and \<open>last_quote\<close>
  and \<open>history\<close> (the whole object) stay as they were; with a price of at least zero the previous
  \<open>last_quote\<close> is appended to \<open>history\<close> and \<open>last_quote\<close> becomes the new quote.
\<close>

theorem update_last_quote_atomic:
  "fst (update_last_quote repr self new_quote) = Inr () \<and>
   (price new_quote < 0 \<longrightarrow>
      check_quote_for_asset new_quote = Inl (NegativePriceException new_quote) \<and>
      fst (snd (update_last_quote repr self new_quote)) = self \<and>
      snd (snd (update_last_quote repr self new_quote)) =
        [NegativePriceException_str repr (NegativePriceException new_quote),
         ''Quote has not been updated'']) \<and>
   (price new_quote \<ge> 0 \<longrightarrow>
      history (fst (snd (update_last_quote repr self new_quote)))
        = history self @ [last_quote self] \<and>
      last_quote (fst (snd (update_last_quote repr self new_quote))) = new_quote \<and>
      ticker (fst (snd (update_last_quote repr self new_quote))) = ticker self \<and>
      currency (fst (snd (update_last_quote repr self new_quote))) = currency self \<and>
      snd (snd (update_last_quote repr self new_quote)) = [])"
  by (simp add: update_last_quote_def check_quote_for_asset_def)

theorem update_last_quote_atomic_witness:
  "price \<lparr>date = 2 :: nat, price = - 200\<rparr> < 0 \<and>
   update_last_quote (\<lambda>q. ''Quote'') (FinancialAsset_init ''AAPL'' \<lparr>date = 1, price = 175\<rparr> ''USD'')
       \<lparr>date = 2 :: nat, price = - 200\<rparr>
     = (Inr (), FinancialAsset_init ''AAPL'' \<lparr>date = 1, price = 175\<rparr> ''USD'',
        [''Negative Price Exception for (Quote,)'', ''Quote has not been updated'']) \<and>
   price \<lparr>date = 2 :: nat, price = 180\<rparr> \<ge> 0 \<and>
   update_last_quote (\<lambda>q. ''Quote'') (FinancialAsset_init ''AAPL'' \<lparr>date = 1, price = 175\<rparr> ''USD'')
       \<lparr>date = 2 :: nat, price = 180\<rparr>
     = (Inr (),
        \<lparr>ticker = ''AAPL'', last_quote = \<lparr>date = 2, price = 180\<rparr>, currency = ''USD'',
         history = [\<lparr>date = 1, price = 175\<rparr>]\<rparr>,
        [])"
proof -
  let ?a = "FinancialAsset_init ''AAPL'' \<lparr>date = 1 :: nat, price = 175\<rparr> ''USD''"
  let ?f = "\<lambda>q :: nat Quote. ''Quote''"
  have n: "price \<lparr>date = 2 :: nat, price = - 200\<rparr> < 0" by simp
  have p: "price \<lparr>date = 2 :: nat, price = 180\<rparr> \<ge> 0" by simp
  have 1: "update_last_quote ?f ?a \<lparr>date = 2, price = - 200\<rparr>
     = (Inr (), ?a, [''Negative Price Exception for (Quote,)'', ''Quote has not been updated''])"
    using update_last_quote_atomic [of ?f ?a "\<lparr>date = 2, price = - 200\<rparr>"] n
    by (simp add: prod_eq_iff NegativePriceException_str_def)
  have 2: "update_last_quote ?f ?a \<lparr>date = 2, price = 180\<rparr>
     = (Inr (), \<lparr>ticker = ''AAPL'', last_quote = \<lparr>date = 2, price = 180\<rparr>, currency = ''USD'',
         history = [\<lparr>date = 1, price = 175\<rparr>]\<rparr>, [])"
    using update_last_quote_atomic [of ?f ?a "\<lparr>date = 2, price = 180\<rparr>"] p
    by (simp add: prod_eq_iff FinancialAsset_init_def)
  from n p 1 2 show ?thesis by blast
qed

section \<open>Properties of \<open>BankAccount\<close>\<close>

lemma deposit_balance_nonneg:
  "0 \<le> balance self \<Longrightarrow> 0 \<le> balance (snd (deposit fmt self amount))"
  by (simp add: deposit_def add_transaction_def)

lemma withdraw_balance_nonneg:
  "0 \<le> balance self \<Longrightarrow> 0 \<le> balance (snd (withdraw fmt self amount))"
  by (simp add: withdraw_def add_transaction_def)

lemma run_calls_balance_nonneg:
  "0 \<le> balance self \<Longrightarrow> 0 \<le> balance (run_calls fmt self calls)"
proof (induction calls arbitrary: self)
  case Nil
  then show ?case by simp
next
  case (Cons call calls)
  show ?case
  proof (cases call)
    case (Deposit amount)
    then show ?thesis
      using Cons.IH [OF deposit_balance_nonneg [OF Cons.prems]] by simp
  next
    case (Withdraw amount)
    then show ?thesis
      using Cons.IH [OF withdraw_balance_nonneg [OF Cons.prems]] by simp
  qed
qed

text \<open>
  C10: an account created with a balance of at least zero keeps a balance of at least
  zero under any sequence of \<open>deposit\<close> and \<open>withdraw\<close> calls. \<open>deposit\<close> adds the amount
  and returns \<open>True\<close> exactly when the amount is positive; \<open>withdraw\<close> subtracts it and
  returns \<open>True\<close> exactly when the amount is positive and at most the balance; otherwise
  each returns \<open>False\<close> and leaves the account as it was.
\<close>

theorem BankAccount_balance_nonneg:
  assumes "0 \<le> initial_balance"
  shows "0 \<le> get_balance (run_calls fmt (BankAccount_init ownr initial_balance) calls) \<and>
    (amount > 0 \<longrightarrow>
       fst (deposit fmt self amount) = True \<and>
       get_balance (snd (deposit fmt self amount)) = get_balance self + amount) \<and>
    (\<not> amount > 0 \<longrightarrow> deposit fmt self amount = (False, self)) \<and>
    (0 < amount \<and> amount \<le> get_balance self \<longrightarrow>
       fst (withdraw fmt self amount) = True \<and>
       get_balance (snd (withdraw fmt self amount)) = get_balance self - amount) \<and>
    (\<not> (0 < amount \<and> amount \<le> get_balance self) \<longrightarrow>
       withdraw fmt self amount = (False, self))"
proof -
  have "0 \<le> balance (BankAccount_init ownr initial_balance)"
    using assms by (simp add: BankAccount_init_def)
  then have "0 \<le> get_balance (run_calls fmt (BankAccount_init ownr initial_balance) calls)"
    unfolding get_balance_def by (rule run_calls_balance_nonneg)
  then show ?thesis
    by (simp add: deposit_def withdraw_def get_balance_def add_transaction_def)
qed

theorem BankAccount_balance_nonneg_witness:
  "(0 :: int) \<le> 1000 \<and>
   get_balance (run_calls (\<lambda>n. ''n'') (BankAccount_init ''Someone'' (1000 :: int))
      [Deposit 500, Withdraw 2000, Withdraw 1500, Deposit (- 5)]) = 0 \<and>
   deposit (\<lambda>n. ''n'') (BankAccount_init ''Someone'' (1000 :: int)) 500
     = (True, \<lparr>owner = ''Someone'', balance = 1500, transaction_history = [''Deposit of n'']\<rparr>) \<and>
   deposit (\<lambda>n. ''n'') (BankAccount_init ''Someone'' (1000 :: int)) 0
     = (False, BankAccount_init ''Someone'' 1000) \<and>
   withdraw (\<lambda>n. ''n'') (BankAccount_init ''Someone'' (1000 :: int)) 1000
     = (True, \<lparr>owner = ''Someone'', balance = 0, transaction_history = [''Withdrawal of n'']\<rparr>) \<and>
   withdraw (\<lambda>n. ''n'') (BankAccount_init ''Someone'' (1000 :: int)) 1001
     = (False, BankAccount_init ''Someone'' 1000)"
proof -
  let ?f = "\<lambda>n :: int. ''n''"
  let ?a = "BankAccount_init ''Someone'' (1000 :: int)"
  have h: "(0 :: int) \<le> 1000" by simp
  have run: "get_balance (run_calls ?f ?a [Deposit 500, Withdraw 2000, Withdraw 1500, Deposit (- 5)]) = 0"
    by (simp add: deposit_def withdraw_def get_balance_def add_transaction_def BankAccount_init_def)
  have dp: "deposit ?f ?a 500
     = (True, \<lparr>owner = ''Someone'', balance = 1500, transaction_history = [''Deposit of n'']\<rparr>)"
    by (simp add: deposit_def add_transaction_def BankAccount_init_def)
  have w1: "withdraw ?f ?a 1000
     = (True, \<lparr>owner = ''Someone'', balance = 0, transaction_history = [''Withdrawal of n'']\<rparr>)"
    by (simp add: withdraw_def add_transaction_def BankAccount_init_def)
  have d0: "deposit ?f ?a 0 = (False, ?a)"
    using BankAccount_balance_nonneg [OF h, of ?f "''Someone''" "[]" 0 ?a] by simp
  have w0: "withdraw ?f ?a 1001 = (False, ?a)"
    using BankAccount_balance_nonneg [OF h, of ?f "''Someone''" "[]" 1001 ?a]
    by (simp add: get_balance_def BankAccount_init_def)
  from h run dp d0 w1 w0 show ?thesis by blast
qed

section \<open>Properties of the standard normal distribution\<close>

subsection \<open>The series of \<open>gauss_int\<close> and its derivative\<close>

text \<open>
  The series converges everywhere, and differentiating it term by term gives the series
  of \<open>exp (- x\<^sup>2 / 2)\<close>.
\<close>

lemma gauss_series_summable: "summable (\<lambda>k. gauss_coeff k * y ^ k)"
proof -
  define h where "h j = (- 1 / 2) ^ j * y ^ (2 * j + 1) / (fact j * real (2 * j + 1))" for j
  have "summable (\<lambda>j. \<bar>y\<bar> * (inverse (fact j) * (y\<^sup>2 / 2) ^ j))"
    by (intro summable_mult summable_exp)
  moreover have "norm (h j) \<le> \<bar>y\<bar> * (inverse (fact j) * (y\<^sup>2 / 2) ^ j)" for j
  proof -
    let ?A = "(1 / 2) ^ j * (\<bar>y\<bar> * (y\<^sup>2) ^ j)"
    have "\<bar>y\<bar> ^ (2 * j + 1) = \<bar>y\<bar> * (y\<^sup>2) ^ j"
      by (simp add: power_mult)
    then have "norm (h j) = ?A / (fact j * real (2 * j + 1))"
      by (simp add: h_def abs_mult power_abs)
    also have "\<dots> \<le> ?A / fact j"
      by (rule frac_le) simp_all
    also have "\<dots> = \<bar>y\<bar> * (inverse (fact j) * (y\<^sup>2 / 2) ^ j)"
      by (simp add: power_divide field_simps)
    finally show ?thesis .
  qed
  ultimately have "summable h"
    by (rule summable_comparison_test' [where N = 0])
  then have "(\<lambda>k. if even k then 0 else h ((k - 1) div 2)) sums suminf h"
    by (intro sums_if' summable_sums)
  moreover have "(if even k then 0 else h ((k - 1) div 2)) = gauss_coeff k * y ^ k" for k
  proof (cases "even k")
    case True
    then show ?thesis by (simp add: gauss_coeff_def)
  next
    case False
    then have "2 * ((k - 1) div 2) + 1 = k" by presburger
    then have "y ^ k = y ^ (2 * ((k - 1) div 2) + 1)" by simp
    then show ?thesis using False unfolding gauss_coeff_def h_def
      by (simp only: if_False times_divide_eq_left \<open>2 * ((k - 1) div 2) + 1 = k\<close>)
  qed
  ultimately show ?thesis by (simp add: sums_iff)
qed

lemma diffs_gauss_coeff:
  "diffs gauss_coeff n = (if even n then (- 1 / 2) ^ (n div 2) / fact (n div 2) else 0)"
  by (simp add: diffs_def gauss_coeff_def)

lemma gauss_diff_series: "(\<Sum>n. diffs gauss_coeff n * x ^ n) = exp (- (x\<^sup>2) / 2)"
proof -
  let ?f = "\<lambda>j. (- (x\<^sup>2) / 2) ^ j /\<^sub>R fact j"
  have z: "(\<lambda>n::nat. 0 :: real) sums 0" by (rule sums_zero)
  have "(\<lambda>n. if even n then ?f (n div 2) else 0) sums (0 + exp (- (x\<^sup>2) / 2))"
    by (rule sums_if [OF z exp_converges])
  moreover have "(if even n then ?f (n div 2) else 0) = diffs gauss_coeff n * x ^ n" for n
  proof (cases "even n")
    case False
    then show ?thesis by (simp add: diffs_gauss_coeff)
  next
    case True
    then obtain m where n: "n = 2 * m" by (elim evenE)
    have "- (x\<^sup>2) / 2 = (- 1 / 2) * x\<^sup>2" by simp
    then have "(- (x\<^sup>2) / 2) ^ m = ((- 1 / 2) * x\<^sup>2) ^ m" by (simp only:)
    also have "\<dots> = (- 1 / 2) ^ m * x ^ (2 * m)"
      by (simp only: power_mult_distrib power_mult)
    finally have "?f m = (- 1 / 2) ^ m / fact m * x ^ (2 * m)"
      by (simp only: real_scaleR_def divide_inverse mult_ac)
    then show ?thesis
      by (simp add: diffs_gauss_coeff n)
  qed
  ultimately show ?thesis by (simp add: sums_iff)
qed

lemma gauss_int_0: "gauss_int 0 = 0"
proof -
  have "gauss_coeff k * 0 ^ k = 0" for k
  proof (cases k)
    case 0
    then show ?thesis by (simp add: gauss_coeff_def)
  next
    case (Suc j)
    then show ?thesis by simp
  qed
  then have "(\<Sum>k. gauss_coeff k * 0 ^ k) = (\<Sum>k::nat. 0 :: real)" by (simp only:)
  then show ?thesis by (simp add: gauss_int_def)
qed

lemma DERIV_gauss_int: "DERIV gauss_int x :> exp (- (x\<^sup>2) / 2)"
proof -
  have "((\<lambda>x. \<Sum>k. gauss_coeff k * x ^ k) has_field_derivative (\<Sum>n. diffs gauss_coeff n * x ^ n)) (at x)"
    by (rule termdiffs_strong_converges_everywhere) (rule gauss_series_summable)
  then show ?thesis
    by (simp add: gauss_diff_series gauss_int_def [abs_def])
qed

subsection \<open>Integrals of powers of the cosine\<close>

lemma cos_power_step:
  fixes c s k p :: real
  assumes "s * s = 1 - c * c"
  shows "(k * p * (- s)) * s + (c * p) * c + k * p = (1 + k) * (c * (c * p))"
proof -
  have "(k * p * (- s)) * s + (c * p) * c + k * p = - (k * p) * (s * s) + (c * p) * c + k * p"
    by simp
  also have "\<dots> = - (k * p) * (1 - c * c) + (c * p) * c + k * p"
    by (simp only: assms)
  also have "\<dots> = (1 + k) * (c * (c * p))"
    by (simp add: algebra_simps)
  finally show ?thesis .
qed

lemma DERIV_cos_int: "DERIV (cos_int m) t :> cos t ^ m"
proof (induction m t rule: cos_int.induct)
  case (1 t)
  have "cos_int 0 = (\<lambda>t. t)" by (rule ext) simp
  then show ?case by simp
next
  case (2 t)
  have "cos_int (Suc 0) = sin" by (rule ext) simp
  then show ?case by simp
next
  case (3 m t)
  let ?c = "cos t" and ?s = "sin t"
  have eq: "cos_int (Suc (Suc m)) =
      (\<lambda>t. (cos t ^ Suc m * sin t + real (Suc m) * cos_int m t) / real (Suc (Suc m)))"
    by (rule ext) simp
  have ss: "?s * ?s = 1 - ?c * ?c"
    using sin_cos_squared_add [of t] by (simp add: power2_eq_square algebra_simps)
  have "((\<lambda>t. (cos t ^ Suc m * sin t + real (Suc m) * cos_int m t) / real (Suc (Suc m)))
          has_real_derivative
        ((real (Suc m) * ?c ^ m * (- ?s)) * ?s + ?c ^ Suc m * ?c + real (Suc m) * ?c ^ m)
          / real (Suc (Suc m))) (at t)"
    by (rule derivative_eq_intros "3.IH" refl | simp)+
  moreover have "(real (Suc m) * ?c ^ m * (- ?s)) * ?s + ?c ^ Suc m * ?c + real (Suc m) * ?c ^ m
      = real (Suc (Suc m)) * ?c ^ Suc (Suc m)"
    unfolding power_Suc of_nat_Suc by (rule cos_power_step [OF ss])
  ultimately show ?case
    by (simp only: eq) (simp del: power_Suc of_nat_Suc)
qed

lemma cos_int_0: "cos_int m 0 = 0"
  by (induction m "0 :: real" rule: cos_int.induct) simp_all

lemma wallis_0: "wallis 0 = pi / 2"
  by (simp add: wallis_def)

lemma wallis_1: "wallis (Suc 0) = 1"
  by (simp add: wallis_def)

lemma wallis_step: "wallis (Suc (Suc m)) = real (Suc m) / real (Suc (Suc m)) * wallis m"
  by (simp add: wallis_def)

lemma wallis_pos: "0 < wallis m"
proof (induction m rule: induct_nat_012)
  case 0
  then show ?case by (simp add: wallis_0)
next
  case 1
  then show ?case by (simp add: wallis_1)
next
  case (ge2 n)
  then show ?case by (simp only: wallis_step) (simp del: of_nat_Suc)
qed

lemma wallis_product: "wallis m * wallis (Suc m) = pi / (2 * real (Suc m))"
proof (induction m)
  case 0
  then show ?case by (simp add: wallis_0 wallis_1)
next
  case (Suc m)
  have "wallis (Suc m) * wallis (Suc (Suc m))
      = real (Suc m) / real (Suc (Suc m)) * (wallis m * wallis (Suc m))"
    by (simp only: wallis_step) (simp only: mult_ac)
  also have "\<dots> = real (Suc m) / real (Suc (Suc m)) * (pi / (2 * real (Suc m)))"
    by (simp only: Suc.IH)
  also have "\<dots> = pi / (2 * real (Suc (Suc m)))"
  proof -
    have c: "a / b * (pi / (2 * a)) = pi / (2 * b)" if "a \<noteq> 0" for a b :: real
      using that by simp
    have "real (Suc m) \<noteq> 0" by simp
    then show ?thesis by (rule c)
  qed
  finally show ?case .
qed

lemma cos_int_mono:
  assumes "0 \<le> a" and "a \<le> b" and "b \<le> pi / 2"
  shows "cos_int m a \<le> cos_int m b"
proof (rule DERIV_nonneg_imp_nondecreasing [OF assms(2)])
  fix t assume "a \<le> t" and "t \<le> b"
  then have "0 \<le> cos t"
    using assms(1,3) by (intro cos_ge_zero) linarith+
  then have "0 \<le> cos t ^ m" by simp
  then show "\<exists>y. DERIV (cos_int m) t :> y \<and> 0 \<le> y"
    using DERIV_cos_int by blast
qed

lemma cos_int_antimono_index:
  assumes "0 \<le> t" and "t \<le> pi / 2"
  shows "cos_int (Suc m) t \<le> cos_int m t"
proof -
  let ?f = "\<lambda>t. cos_int m t - cos_int (Suc m) t"
  have "?f 0 \<le> ?f t"
  proof (rule DERIV_nonneg_imp_nondecreasing [OF assms(1)])
    fix u assume u: "0 \<le> u" "u \<le> t"
    then have c0: "0 \<le> cos u"
      using assms(2) by (intro cos_ge_zero) linarith+
    have c1: "cos u \<le> 1" by simp
    have "0 \<le> cos u ^ m * (1 - cos u)"
      using c0 c1 by (intro mult_nonneg_nonneg) simp_all
    then have "0 \<le> cos u ^ m - cos u ^ Suc m"
      by (simp add: algebra_simps)
    moreover have "DERIV ?f u :> cos u ^ m - cos u ^ Suc m"
      by (intro DERIV_diff DERIV_cos_int)
    ultimately show "\<exists>y. DERIV ?f u :> y \<and> 0 \<le> y" by blast
  qed
  then show ?thesis by (simp add: cos_int_0)
qed

lemma wallis_antimono: "wallis (Suc m) \<le> wallis m"
  unfolding wallis_def by (rule cos_int_antimono_index) simp_all

lemma wallis_square_le: "(wallis (Suc m))\<^sup>2 \<le> pi / (2 * real (Suc m))"
proof -
  have "wallis (Suc m) * wallis (Suc m) \<le> wallis m * wallis (Suc m)"
    using wallis_antimono [of m] wallis_pos [of "Suc m"]
    by (intro mult_right_mono) simp_all
  then show ?thesis
    by (simp only: wallis_product power2_eq_square)
qed

subsection \<open>The bound \<open>sqrt (pi / 2)\<close> on \<open>gauss_int\<close>\<close>

text \<open>
  For every \<open>n\<close>, \<open>exp (- t\<^sup>2 / 2) \<le> (1 + t\<^sup>2 / (2 n)) ^ (- n)\<close>, and the right-hand side is
  the derivative of \<open>sqrt (2 n) * cos_int (2 n - 2) (arctan (t / sqrt (2 n)))\<close>. Hence
  \<open>gauss_int x \<le> sqrt (2 n) * wallis (2 n - 2)\<close>, whose square tends to \<open>pi / 2\<close>.
\<close>

lemma cos_arctan_power2: "(cos (arctan u))\<^sup>2 = 1 / (1 + u\<^sup>2)"
proof -
  have "0 \<le> 1 + u\<^sup>2" by (simp add: add_nonneg_nonneg)
  then show ?thesis
    by (simp add: cos_arctan power_divide)
qed

lemma exp_le_inverse_power:
  fixes w :: real
  assumes "0 \<le> w"
  shows "exp (- (real n * w)) \<le> (1 / (1 + w)) ^ n"
proof -
  have "(1 + w) ^ n \<le> exp w ^ n"
    using assms by (intro power_mono) simp_all
  also have "\<dots> = exp (real n * w)"
    by (simp add: exp_of_nat_mult)
  finally have le: "(1 + w) ^ n \<le> exp (real n * w)" .
  have pos: "0 < (1 + w) ^ n"
    using assms by (intro zero_less_power) linarith
  have "exp (- (real n * w)) = 1 / exp (real n * w)"
    by (simp add: exp_minus divide_inverse)
  also have "\<dots> \<le> 1 / (1 + w) ^ n"
    using le pos by (intro divide_left_mono mult_pos_pos) simp_all
  also have "\<dots> = (1 / (1 + w)) ^ n"
    by (simp add: power_divide)
  finally show ?thesis .
qed

lemma DERIV_arctan_scaled:
  assumes "a \<noteq> 0"
  shows "DERIV (\<lambda>x. arctan (x / a)) x :> inverse (1 + (x / a)\<^sup>2) * (1 / a)"
  using assms by (auto intro!: derivative_eq_intros)

lemma DERIV_cos_int_arctan:
  assumes "0 < a"
  shows "DERIV (\<lambda>x. a * cos_int (2 * j) (arctan (x / a))) x :> (1 / (1 + (x / a)\<^sup>2)) ^ Suc j"
proof -
  let ?u = "x / a"
  have a0: "a \<noteq> 0" using assms by simp
  have "DERIV (\<lambda>x. cos_int (2 * j) (arctan (x / a))) x
          :> cos (arctan ?u) ^ (2 * j) * (inverse (1 + ?u\<^sup>2) * (1 / a))"
    by (rule DERIV_chain2 [OF DERIV_cos_int DERIV_arctan_scaled [OF a0]])
  then have "DERIV (\<lambda>x. a * cos_int (2 * j) (arctan (x / a))) x
          :> a * (cos (arctan ?u) ^ (2 * j) * (inverse (1 + ?u\<^sup>2) * (1 / a)))"
    by (rule DERIV_cmult)
  moreover have "a * (cos (arctan ?u) ^ (2 * j) * (inverse (1 + ?u\<^sup>2) * (1 / a)))
      = (1 / (1 + ?u\<^sup>2)) ^ Suc j"
  proof -
    have "cos (arctan ?u) ^ (2 * j) = (1 / (1 + ?u\<^sup>2)) ^ j"
      by (simp only: power_mult cos_arctan_power2)
    moreover have "a * (p * (inverse q * (1 / a))) = p * (1 / q)" for p q :: real
      using a0 by (simp add: divide_inverse)
    ultimately show ?thesis by simp
  qed
  ultimately show ?thesis by simp
qed

lemma gauss_int_nonneg:
  assumes "0 \<le> x"
  shows "0 \<le> gauss_int x"
proof -
  have "gauss_int 0 \<le> gauss_int x"
  proof (rule DERIV_nonneg_imp_nondecreasing [OF assms])
    fix t :: real
    have "0 \<le> exp (- (t\<^sup>2) / 2)" by simp
    then show "\<exists>y. DERIV gauss_int t :> y \<and> 0 \<le> y"
      using DERIV_gauss_int by blast
  qed
  then show ?thesis by (simp add: gauss_int_0)
qed

lemma gauss_int_le_wallis:
  assumes "0 \<le> x"
  shows "gauss_int x \<le> sqrt (2 * real (Suc j)) * wallis (2 * j)"
proof -
  define a where "a = sqrt (2 * real (Suc j))"
  have a_pos: "0 < a" by (simp add: a_def)
  have a_sq: "a\<^sup>2 = 2 * real (Suc j)" by (simp add: a_def)
  let ?Q = "\<lambda>x. a * cos_int (2 * j) (arctan (x / a))"
  let ?f = "\<lambda>x. ?Q x - gauss_int x"
  have "?f 0 \<le> ?f x"
  proof (rule DERIV_nonneg_imp_nondecreasing [OF assms])
    fix t :: real
    let ?w = "(t / a)\<^sup>2"
    have c: "b * (t\<^sup>2 / (2 * b)) = t\<^sup>2 / 2" if "b \<noteq> 0" for b :: real
      using that by simp
    have "real (Suc j) \<noteq> 0" by simp
    then have "real (Suc j) * (t\<^sup>2 / (2 * real (Suc j))) = t\<^sup>2 / 2" by (rule c)
    then have "real (Suc j) * ?w = t\<^sup>2 / 2"
      by (simp only: power_divide a_sq)
    then have "exp (- (t\<^sup>2) / 2) = exp (- (real (Suc j) * ?w))"
      by simp
    also have "\<dots> \<le> (1 / (1 + ?w)) ^ Suc j"
      by (rule exp_le_inverse_power) simp
    finally have "0 \<le> (1 / (1 + ?w)) ^ Suc j - exp (- (t\<^sup>2) / 2)" by simp
    moreover have "DERIV ?f t :> (1 / (1 + ?w)) ^ Suc j - exp (- (t\<^sup>2) / 2)"
      by (intro DERIV_diff DERIV_cos_int_arctan [OF a_pos] DERIV_gauss_int)
    ultimately show "\<exists>y. DERIV ?f t :> y \<and> 0 \<le> y" by blast
  qed
  then have "gauss_int x \<le> ?Q x"
    by (simp add: cos_int_0 gauss_int_0)
  also have "\<dots> \<le> a * wallis (2 * j)"
  proof -
    have "0 \<le> x / a" using assms a_pos by simp
    then have "0 \<le> arctan (x / a)" by simp
    moreover have "arctan (x / a) \<le> pi / 2"
      using arctan_ubound [of "x / a"] by simp
    ultimately have "cos_int (2 * j) (arctan (x / a)) \<le> cos_int (2 * j) (pi / 2)"
      by (intro cos_int_mono) simp_all
    then show ?thesis
      unfolding wallis_def using a_pos by (intro mult_left_mono) simp_all
  qed
  finally show ?thesis by (simp only: a_def)
qed

lemma gauss_int_square_le:
  assumes "0 \<le> x"
  shows "(gauss_int x)\<^sup>2 \<le> pi / 2 + (pi / 2) * inverse (real (Suc i))"
proof -
  let ?a = "sqrt (2 * real (Suc (Suc i)))"
  let ?m = "Suc (2 * i)"
  have idx: "2 * Suc i = Suc ?m" by simp
  have g: "gauss_int x \<le> ?a * wallis (Suc ?m)"
    using gauss_int_le_wallis [OF assms, of "Suc i"] by (simp only: idx)
  have "(gauss_int x)\<^sup>2 \<le> (?a * wallis (Suc ?m))\<^sup>2"
    using gauss_int_nonneg [OF assms] g by (intro power_mono)
  also have "\<dots> = (2 * real (Suc (Suc i))) * (wallis (Suc ?m))\<^sup>2"
    by (simp add: power_mult_distrib)
  also have "\<dots> \<le> (2 * real (Suc (Suc i))) * (pi / (2 * real (Suc ?m)))"
    by (intro mult_left_mono wallis_square_le) simp
  also have "\<dots> = pi / 2 + (pi / 2) * inverse (real (Suc i))"
  proof -
    have r: "real (Suc ?m) = 2 * real (Suc i)" by simp
    have s: "real (Suc (Suc i)) = real (Suc i) + 1" by simp
    have c: "(2 * (b + 1)) * (pi / (2 * (2 * b))) = pi / 2 + (pi / 2) * inverse b"
      if "b \<noteq> 0" for b :: real
      using that by (simp add: field_simps)
    have "real (Suc i) \<noteq> 0" by simp
    then have "(2 * (real (Suc i) + 1)) * (pi / (2 * (2 * real (Suc i))))
        = pi / 2 + (pi / 2) * inverse (real (Suc i))"
      by (rule c)
    then show ?thesis by (simp only: r s)
  qed
  finally show ?thesis .
qed

lemma gauss_int_le:
  assumes "0 \<le> x"
  shows "gauss_int x \<le> sqrt (pi / 2)"
proof -
  have "(gauss_int x)\<^sup>2 \<le> pi / 2"
  proof (rule ccontr)
    assume "\<not> (gauss_int x)\<^sup>2 \<le> pi / 2"
    then have d: "0 < ((gauss_int x)\<^sup>2 - pi / 2) / (pi / 2)"
      by (simp add: pi_gt_zero)
    obtain i where i: "inverse (real (Suc i)) < ((gauss_int x)\<^sup>2 - pi / 2) / (pi / 2)"
      using reals_Archimedean [OF d] by blast
    have "(pi / 2) * inverse (real (Suc i)) < (gauss_int x)\<^sup>2 - pi / 2"
      using i pi_gt_zero by (simp add: pos_less_divide_eq mult.commute)
    then show False
      using gauss_int_square_le [OF assms, of i] by linarith
  qed
  then show ?thesis by (rule real_le_rsqrt)
qed

subsection \<open>The distribution function\<close>

lemma gauss_int_odd: "gauss_int (- x) = - gauss_int x"
proof -
  let ?f = "\<lambda>x. gauss_int x + gauss_int (- x)"
  have d: "DERIV ?f t :> 0" for t
  proof -
    have "DERIV (\<lambda>x. gauss_int (- x)) t :> exp (- ((- t)\<^sup>2) / 2) * (- 1)"
      by (rule DERIV_chain2 [OF DERIV_gauss_int]) (auto intro!: derivative_eq_intros)
    then have "DERIV ?f t :> exp (- (t\<^sup>2) / 2) + exp (- ((- t)\<^sup>2) / 2) * (- 1)"
      by (intro DERIV_add DERIV_gauss_int)
    then show ?thesis by simp
  qed
  then have "\<forall>t. DERIV ?f t :> 0" by blast
  then have "?f x = ?f 0" by (rule DERIV_isconst_all)
  then show ?thesis by (simp add: gauss_int_0)
qed

lemma sqrt_half_pi: "sqrt (pi / 2) = sqrt (2 * pi) / 2"
proof -
  have "sqrt (2 * pi) / 2 = sqrt (2 * pi) / sqrt 4" by simp
  also have "\<dots> = sqrt (2 * pi / 4)" by (simp only: real_sqrt_divide)
  finally show ?thesis by simp
qed

lemma gauss_int_bounds: "- (sqrt (2 * pi) / 2) \<le> gauss_int x \<and> gauss_int x \<le> sqrt (2 * pi) / 2"
proof (cases "0 \<le> x")
  case True
  have "0 \<le> sqrt (2 * pi) / 2" by simp
  then show ?thesis
    using gauss_int_nonneg [OF True] gauss_int_le [OF True] by (simp add: sqrt_half_pi)
next
  case False
  then have n: "0 \<le> - x" by simp
  have "0 \<le> sqrt (2 * pi) / 2" by simp
  then show ?thesis
    using gauss_int_nonneg [OF n] gauss_int_le [OF n]
    by (simp add: sqrt_half_pi gauss_int_odd)
qed


lemma norm_cdf_range: "0 \<le> norm_cdf x \<and> norm_cdf x \<le> 1"
proof -
  define q where "q = gauss_int x / sqrt (2 * pi)"
  have p: "0 < sqrt (2 * pi)" by simp
  have h: "(sqrt (2 * pi) / 2) / sqrt (2 * pi) = 1 / 2"
    using p by simp
  have "- (sqrt (2 * pi) / 2) / sqrt (2 * pi) \<le> q"
    unfolding q_def using gauss_int_bounds [of x] p by (intro divide_right_mono) simp_all
  then have lo: "- (1 / 2) \<le> q"
    by (simp only: minus_divide_left [symmetric] h)
  have "q \<le> (sqrt (2 * pi) / 2) / sqrt (2 * pi)"
    unfolding q_def using gauss_int_bounds [of x] p by (intro divide_right_mono) simp_all
  then have hi: "q \<le> 1 / 2"
    by (simp only: h)
  have "norm_cdf x = 1 / 2 + q"
    by (simp only: norm_cdf_def q_def)
  then show ?thesis using lo hi by linarith
qed

text \<open>
  \<open>norm_cdf\<close> is the antiderivative of the density with value \<open>1/2\<close> at zero, that is,
  the standard normal distribution function.
\<close>

lemma DERIV_norm_cdf: "DERIV norm_cdf x :> norm_pdf x"
proof -
  have "DERIV (\<lambda>x. 1 / 2 + gauss_int x / sqrt (2 * pi)) x :> 0 + exp (- (x\<^sup>2) / 2) / sqrt (2 * pi)"
    by (intro DERIV_add DERIV_const DERIV_cdivide DERIV_gauss_int)
  then show ?thesis
    by (simp add: norm_cdf_def [abs_def] norm_pdf_def)
qed

lemma norm_cdf_0: "norm_cdf 0 = 1 / 2"
  by (simp add: norm_cdf_def gauss_int_0)

section \<open>Properties of the Black-Scholes options\<close>

lemma d1_valid:
  assumes "0 < S self" and "0 < K self" and "0 < T self" and "0 < sigma self"
  shows "d1 self = Inr ((ln (S self / K self) + (r self + 0.5 * (sigma self)\<^sup>2) * T self)
                         / sigma self * sqrt (T self))"
proof -
  have "0 < S self / K self" using assms(1,2) by simp
  then show ?thesis using assms by (simp add: d1_def not_le)
qed


lemma compute_d1_valid:
  assumes "0 < spot self" and "0 < strike self" and "0 < ttm self" and "0 < vol self"
  shows "compute_d1 self
           = Inr (d1_formula (spot self) (strike self) (risk_free self) (ttm self) (vol self))"
proof -
  have "0 < spot self / strike self" using assms(1,2) by simp
  then show ?thesis using assms by (simp add: compute_d1_def d1_formula_def not_le)
qed

text \<open>
  \<open>Option.d1\<close> of \<open>s_1_bs_option.py\<close> divides by \<open>sigma\<close> and then multiplies by
  \<open>sqrt(T)\<close>, so on valid inputs it returns the documented formula multiplied by \<open>T\<close>.
\<close>

lemma d1_formula_times_T:
  assumes "0 < S self" and "0 < K self" and "0 < T self" and "0 < sigma self"
  shows "d1 self = Inr (T self * d1_formula (S self) (K self) (r self) (T self) (sigma self))"
proof -
  have "sqrt (T self) * sqrt (T self) = T self"
    using assms(3) by simp
  then have "x / sigma self * sqrt (T self) = T self * (x / (sigma self * sqrt (T self)))" for x
    using assms(3,4) by (simp add: field_simps)
  then show ?thesis
    by (simp add: d1_valid [OF assms] d1_formula_def)
qed

text \<open>
  C1: on valid inputs the \<open>d1\<close> helper should return
  \<open>(ln(S/K) + (r + 0.5 sigma^2) T) / (sigma sqrt(T))\<close>. \<open>Option.compute_d1\<close> does;
  \<open>Option.d1\<close> does not: for \<open>S = K = 100\<close>, \<open>r = 0\<close>, \<open>T = 4\<close>, \<open>sigma = 1\<close> it returns
  \<open>4\<close> where the formula gives \<open>1\<close>.
\<close>

theorem d1_differs_from_formula:
  "d1 \<lparr>S = 100, K = 100, r = 0, T = 4, sigma = 1\<rparr> = Inr 4 \<and>
   d1_formula 100 100 0 4 1 = 1 \<and>
   compute_d1 \<lparr>spot = 100, strike = 100, risk_free = 0, ttm = 4, vol = 1\<rparr> = Inr 1"
  by (simp add: d1_def d1_formula_def compute_d1_def)



text \<open>
  C7: for valid inputs \<open>Call.delta()\<close> lies in \<open>[0, 1]\<close> and \<open>Put.delta()\<close> in \<open>[-1, 0]\<close>.
\<close>

theorem delta_bounds:
  assumes "0 < S self" and "0 < K self" and "0 < T self" and "0 < sigma self"
  shows "\<exists>c p. Call_delta self = Inr c \<and> 0 \<le> c \<and> c \<le> 1 \<and>
               Put_delta self = Inr p \<and> - 1 \<le> p \<and> p \<le> 0"
proof -
  obtain a where a: "d1 self = Inr a"
    using d1_valid [OF assms] by blast
  have "0 \<le> norm_cdf a" "norm_cdf a \<le> 1"
    using norm_cdf_range [of a] by simp_all
  then show ?thesis by (simp add: Call_delta_def Put_delta_def a)
qed

theorem delta_bounds_witness:
  "\<exists>c p. Call_delta \<lparr>S = 200, K = 250, r = 0.05, T = 1, sigma = 0.15\<rparr> = Inr c \<and>
         0 \<le> c \<and> c \<le> 1 \<and>
         Put_delta \<lparr>S = 200, K = 250, r = 0.05, T = 1, sigma = 0.15\<rparr> = Inr p \<and>
         - 1 \<le> p \<and> p \<le> 0"
  using delta_bounds [of "\<lparr>S = 200, K = 250, r = 0.05, T = 1, sigma = 0.15\<rparr>"]
  by simp

lemma norm_pdf_pos: "0 < norm_pdf x"
  by (simp add: norm_pdf_def)

text \<open>
  C8: for valid inputs \<open>Option.vega()\<close> returns \<open>S phi(d1) sqrt(T)\<close>, where \<open>phi\<close> is the
  standard normal density and \<open>d1\<close> is what \<open>self.d1()\<close> returns, and this is not
  negative. \<open>vega\<close> is defined once, in \<open>Option\<close>, for calls and puts alike.
\<close>

theorem vega_nonneg:
  assumes "0 < S self" and "0 < K self" and "0 < T self" and "0 < sigma self"
  shows "\<exists>a v. d1 self = Inr a \<and> vega self = Inr v \<and>
               v = S self * norm_pdf a * sqrt (T self) \<and> 0 \<le> v"
proof -
  obtain a where a: "d1 self = Inr a"
    using d1_valid [OF assms] by blast
  have v: "vega self = Inr (S self * norm_pdf a * sqrt (T self))"
    using assms(3) by (simp add: vega_def a)
  have "0 \<le> S self * norm_pdf a * sqrt (T self)"
    using assms(1,3) norm_pdf_pos [of a] by (simp add: less_imp_le)
  with a v show ?thesis by blast
qed

theorem vega_nonneg_witness:
  "\<exists>a v. d1 \<lparr>S = 200, K = 250, r = 0.05, T = 1, sigma = 0.15\<rparr> = Inr a \<and>
         vega \<lparr>S = 200, K = 250, r = 0.05, T = 1, sigma = 0.15\<rparr> = Inr v \<and>
         v = 200 * norm_pdf a \<and> 0 \<le> v"
  using vega_nonneg [of "\<lparr>S = 200, K = 250, r = 0.05, T = 1, sigma = 0.15\<rparr>"]
  by simp

end
